theory Spec2Isabelle
  imports Main "HOL-Library.Sublist" "HOL-Library.Word"
begin

section \<open>Text\<close>

text \<open>
  A Python \<open>str\<close> is a sequence of Unicode code points, and \<open>len\<close>, slicing and the
  regular expressions of \<open>re\<close> count code points. The texts of this program hold Turkish
  letters beyond Latin-1, so a text is modelled as the list of its code points.
\<close>

type_synonym ustring = "nat list"

definition ustr :: "string \<Rightarrow> ustring" where
  "ustr s = map of_char s"

definition NL :: nat where
  "NL = 10"

text \<open>
  The whitespace of \<open>str.strip()\<close> and of \<open>\s\<close> in a \<open>str\<close> pattern is the same
  predicate of the interpreter (\<open>str.isspace\<close> on one character): the ASCII controls
  9..13 and 28..31, the space, and the Unicode separators listed here.
\<close>

definition is_space :: "nat \<Rightarrow> bool" where
  "is_space c \<longleftrightarrow>
     (9 \<le> c \<and> c \<le> 13) \<or> (28 \<le> c \<and> c \<le> 32) \<or> c = 133 \<or> c = 160 \<or> c = 5760 \<or>
     (8192 \<le> c \<and> c \<le> 8202) \<or> c = 8232 \<or> c = 8233 \<or> c = 8239 \<or> c = 8287 \<or> c = 12288"

definition strip :: "ustring \<Rightarrow> ustring" where
  "strip s = rev (dropWhile is_space (rev (dropWhile is_space s)))"

text \<open>
  \<open>find_after needle s\<close> is what follows the first occurrence of \<open>needle\<close> in \<open>s\<close>,
  if there is one.
\<close>

fun find_after :: "ustring \<Rightarrow> ustring \<Rightarrow> ustring option" where
  "find_after needle [] = (if needle = [] then Some [] else None)"
| "find_after needle (c # cs) =
     (if prefix needle (c # cs) then Some (drop (length needle) (c # cs))
      else find_after needle cs)"

section \<open>The markdown normalizer\<close>

text \<open>
  \<open>re.sub(r'\n{3,}', '\n\n', s)\<close>. The scan goes left to right. At a position where
  three or more newlines begin, the greedy quantifier takes the whole run, two newlines
  are written, and the scan goes on behind the run; anywhere else the character is copied
  and the scan moves one position. \<open>match_blank_lines\<close> gives the text behind a match that
  starts at the head.
\<close>

definition match_blank_lines :: "ustring \<Rightarrow> ustring option" where
  "match_blank_lines s =
     (if 3 \<le> length (takeWhile (\<lambda>x. x = NL) s) then Some (dropWhile (\<lambda>x. x = NL) s)
      else None)"

lemma match_blank_lines_shorter:
  "match_blank_lines s = Some rest \<Longrightarrow> length rest < length s"
proof -
  assume a: "match_blank_lines s = Some rest"
  have "length (takeWhile (\<lambda>x. x = NL) s) + length (dropWhile (\<lambda>x. x = NL) s) = length s"
    by (metis length_append takeWhile_dropWhile_id)
  with a show ?thesis
    by (auto simp: match_blank_lines_def split: if_splits)
qed

function sub_blank_lines :: "ustring \<Rightarrow> ustring" where
  "sub_blank_lines [] = []"
| "sub_blank_lines (c # cs) =
     (case match_blank_lines (c # cs) of
        Some rest \<Rightarrow> NL # NL # sub_blank_lines rest
      | None \<Rightarrow> c # sub_blank_lines cs)"
  by pat_completeness auto
termination
  by (relation "measure length") (auto dest: match_blank_lines_shorter)

text \<open>
  \<open>re.sub(r'Skip to content.*?Biz Evde Yokuz', 'Biz Evde Yokuz', s, flags=re.DOTALL)\<close>.
  With \<open>DOTALL\<close> the dot takes any character; the lazy quantifier stops at the first
  occurrence of the anchor phrase behind the opening phrase. A position where the opening
  phrase starts but no anchor follows is no match, and the character is copied.
\<close>

definition SKIP_TO_CONTENT :: ustring where
  "SKIP_TO_CONTENT = ustr ''Skip to content''"

definition BIZ_EVDE_YOKUZ :: ustring where
  "BIZ_EVDE_YOKUZ = ustr ''Biz Evde Yokuz''"

definition match_boilerplate :: "ustring \<Rightarrow> ustring option" where
  "match_boilerplate s =
     (if prefix SKIP_TO_CONTENT s
      then find_after BIZ_EVDE_YOKUZ (drop (length SKIP_TO_CONTENT) s)
      else None)"

lemma find_after_length:
  "find_after needle s = Some rest \<Longrightarrow> length rest \<le> length s"
  by (induction s) (auto split: if_splits)

lemma match_boilerplate_shorter:
  "match_boilerplate s = Some rest \<Longrightarrow> length rest < length s"
proof -
  assume a: "match_boilerplate s = Some rest"
  then have p: "prefix SKIP_TO_CONTENT s"
    and f: "find_after BIZ_EVDE_YOKUZ (drop (length SKIP_TO_CONTENT) s) = Some rest"
    by (auto simp: match_boilerplate_def split: if_splits)
  from p have "length SKIP_TO_CONTENT \<le> length s"
    by (rule prefix_length_le)
  moreover have "0 < length SKIP_TO_CONTENT"
    by (simp add: SKIP_TO_CONTENT_def ustr_def)
  moreover from f have "length rest \<le> length s - length SKIP_TO_CONTENT"
    using find_after_length by fastforce
  ultimately show ?thesis by linarith
qed

function sub_boilerplate :: "ustring \<Rightarrow> ustring" where
  "sub_boilerplate [] = []"
| "sub_boilerplate (c # cs) =
     (case match_boilerplate (c # cs) of
        Some rest \<Rightarrow> BIZ_EVDE_YOKUZ @ sub_boilerplate rest
      | None \<Rightarrow> c # sub_boilerplate cs)"
  by pat_completeness auto
termination
  by (relation "measure length") (auto dest: match_boilerplate_shorter)

text \<open>
  \<open>_clean_markdown\<close>, in the order of the source: the blank-line substitution, then
  \<open>strip()\<close>, then the boilerplate substitution.
\<close>

definition clean_markdown :: "ustring \<Rightarrow> ustring" where
  "clean_markdown markdown_content =
     sub_boilerplate (strip (sub_blank_lines markdown_content))"


text \<open>
  A text is trimmed when it is empty or neither starts nor ends with whitespace.
\<close>

definition trimmed :: "ustring \<Rightarrow> bool" where
  "trimmed s \<longleftrightarrow> (s = [] \<or> (\<not> is_space (hd s) \<and> \<not> is_space (last s)))"


definition NL3 :: ustring where
  "NL3 = [NL, NL, NL]"

abbreviation nl_run :: "ustring \<Rightarrow> ustring" where
  "nl_run s \<equiv> takeWhile (\<lambda>x. x = NL) s"

text \<open>
  The steps as the specification words them, in its order collapse, boilerplate, trim.
  \<^item> "Collapse any run of three or more consecutive newlines to exactly two": the text is
    cut into maximal runs of newlines and the characters between them, and a run of three
    or more becomes two newlines (\<open>collapse_runs\<close>).
  \<^item> "Strip a known leading-boilerplate span up through a fixed anchor phrase if present",
    non-greedy: the span starts at the first opening phrase that an anchor phrase
    follows and runs through the first anchor phrase behind it; the span is removed, the
    anchor phrase included, and a text without such a span is unchanged
    (\<open>strip_leading_span\<close>).
  \<^item> "Trim outer whitespace" (\<open>strip\<close>).
\<close>

function collapse_runs :: "ustring \<Rightarrow> ustring" where
  "collapse_runs [] = []"
| "collapse_runs (c # cs) =
     (if c = NL
      then (let run = takeWhile (\<lambda>x. x = NL) (c # cs)
            in (if 3 \<le> length run then [NL, NL] else run)
               @ collapse_runs (dropWhile (\<lambda>x. x = NL) cs))
      else c # collapse_runs cs)"
  by pat_completeness auto
termination
  by (relation "measure length") (auto simp: le_imp_less_Suc length_dropWhile_le)

function strip_leading_span :: "ustring \<Rightarrow> ustring" where
  "strip_leading_span [] = []"
| "strip_leading_span (c # cs) =
     (if prefix SKIP_TO_CONTENT (c # cs)
      then (case find_after BIZ_EVDE_YOKUZ (drop (length SKIP_TO_CONTENT) (c # cs)) of
              Some rest \<Rightarrow> rest
            | None \<Rightarrow> c # strip_leading_span cs)
      else c # strip_leading_span cs)"
  by pat_completeness auto
termination
  by (relation "measure length") auto

definition normalize_spec :: "ustring \<Rightarrow> ustring" where
  "normalize_spec s = strip (strip_leading_span (collapse_runs s))"

section \<open>Python values\<close>

text \<open>
  The values that \<open>json.loads\<close> returns and that the program builds as dictionaries. A
  dictionary is the list of its entries in insertion order, with distinct keys; a float is
  carried as its binary64 bit pattern, and no arithmetic is done on it.
\<close>

datatype pyval =
    PNone
  | PBool bool
  | PInt int
  | PFloat "64 word"
  | PStr ustring
  | PList "pyval list"
  | PDict "(ustring \<times> pyval) list"

datatype exn =
    LibraryError ustring
  | HTTPError nat
  | TypeError
  | KeyError ustring

text \<open>
  The dictionary \<open>results\<close> of \<open>scrape_and_process_roma_yemek\<close> has four fixed keys
  and is a record here.
\<close>

record results =
  url :: ustring
  title :: ustring
  processed :: bool
  openai_result :: pyval

section \<open>The collaborators\<close>

text \<open>
  The program reaches the network, the HTML libraries, the completion service and the JSON
  decoder through library calls. Each is a parameter of the model, a function from the
  arguments of the call to its outcome; an outcome that raises carries \<open>str(e)\<close>.
  \<^item> \<open>requests_get url headers proxies timeout\<close> is \<open>requests.get\<close>: it raises, or
    returns a response, of which the program reads the status code and the text.
  \<^item> \<open>render_article html\<close> is lines 99 to 113 of \<open>html_to_markdown\<close>: the parse by
    BeautifulSoup, the removal of the noise elements, the choice of the article, body or
    whole document, and \<open>markdownify\<close> with ATX headings.
  \<^item> \<open>chat_create system user\<close> is \<open>client.chat.completions.create\<close> with the fixed
    model and sampling parameters, followed by the read of
    \<open>response.choices[0].message.content\<close>: the call raises (\<open>CreateRaises\<close>), or the
    response has no text to search (\<open>NoText\<close>: no choice, or a content that is not a
    string, on which \<open>re.search\<close> raises), or it has the reply text.
  \<^item> \<open>json_loads s\<close> is \<open>json.loads\<close>: a value, a \<open>JSONDecodeError\<close>, or another
    exception.
  \<^item> \<open>write_json res\<close> is lines 293 to 294 of \<open>main\<close>, opening the output file and
    \<open>json.dump\<close> into it: it succeeds, or it raises.
\<close>

datatype http_outcome = GetRaises ustring | Response nat ustring

datatype chat_outcome = CreateRaises ustring | NoText ustring | Reply ustring

datatype loads_outcome = Parsed pyval | JSONDecodeError | LoadsRaises ustring

record world =
  requests_get ::
    "ustring \<Rightarrow> (ustring \<times> ustring) list \<Rightarrow> (ustring \<times> ustring) list option \<Rightarrow> int
       \<Rightarrow> http_outcome"
  render_article :: "ustring \<Rightarrow> exn + ustring"
  chat_create :: "ustring \<Rightarrow> ustring \<Rightarrow> chat_outcome"
  json_loads :: "ustring \<Rightarrow> loads_outcome"
  write_json :: "results \<Rightarrow> exn option"

text \<open>The calls that leave the process, in the order they are made.\<close>

datatype event = HttpGet ustring | ChatCompletion ustring

definition chat_calls :: "event list \<Rightarrow> nat" where
  "chat_calls evs = length (filter (\<lambda>e. case e of ChatCompletion _ \<Rightarrow> True | _ \<Rightarrow> False) evs)"

section \<open>The scraper\<close>

record scraper =
  openai_api_key :: ustring
  proxy :: "ustring option"
  user_agent :: ustring
  timeout :: int

definition DEFAULT_USER_AGENT :: ustring where
  "DEFAULT_USER_AGENT = ustr
     ''Mozilla/5.0 (Windows NT 10.0; Win64; x64) AppleWebKit/537.36 (KHTML, like Gecko) Chrome/91.0.4472.124 Safari/537.36''"

text \<open>\<open>__init__\<close>: \<open>user_agent or default\<close> takes the default for \<open>None\<close> and for the empty string.\<close>

definition RomaYemekScraper :: "ustring \<Rightarrow> ustring option \<Rightarrow> ustring option \<Rightarrow> int \<Rightarrow> scraper" where
  "RomaYemekScraper key prx agent tmo =
     \<lparr>openai_api_key = key, proxy = prx,
      user_agent = (case agent of None \<Rightarrow> DEFAULT_USER_AGENT
                    | Some a \<Rightarrow> if a = [] then DEFAULT_USER_AGENT else a),
      timeout = tmo\<rparr>"

definition request_headers :: "scraper \<Rightarrow> (ustring \<times> ustring) list" where
  "request_headers self =
     [(ustr ''User-Agent'', user_agent self),
      (ustr ''Accept'',
       ustr ''text/html,application/xhtml+xml,application/xml;q=0.9,image/webp,*/*;q=0.8''),
      (ustr ''Accept-Language'', ustr ''tr,en-US;q=0.7,en;q=0.3''),
      (ustr ''Connection'', ustr ''keep-alive''),
      (ustr ''Upgrade-Insecure-Requests'', ustr ''1''),
      (ustr ''Cache-Control'', ustr ''max-age=0'')]"

text \<open>\<open>if self.proxy\<close> is false for \<open>None\<close> and for the empty string.\<close>

definition request_proxies :: "scraper \<Rightarrow> (ustring \<times> ustring) list option" where
  "request_proxies self =
     (case proxy self of
        None \<Rightarrow> None
      | Some p \<Rightarrow> if p = [] then None else Some [(ustr ''http'', p), (ustr ''https'', p)])"

text \<open>
  The body of the \<open>try\<close> in \<open>scrape_with_requests\<close>: the request, then
  \<open>raise_for_status\<close>, which raises \<open>HTTPError\<close> for a status from 400 to 599, then the
  text of the response.
\<close>

definition scrape_try :: "world \<Rightarrow> scraper \<Rightarrow> ustring \<Rightarrow> exn + ustring" where
  "scrape_try w self target =
     (case requests_get w target (request_headers self) (request_proxies self) (timeout self) of
        GetRaises e \<Rightarrow> Inl (LibraryError e)
      | Response status body \<Rightarrow>
          if 400 \<le> status \<and> status < 600 then Inl (HTTPError status) else Inr body)"

text \<open>\<open>except Exception\<close>: whatever the body raised, the result is the empty string.\<close>

definition scrape_with_requests :: "world \<Rightarrow> scraper \<Rightarrow> ustring \<Rightarrow> ustring" where
  "scrape_with_requests w self target =
     (case scrape_try w self target of Inl e \<Rightarrow> [] | Inr body \<Rightarrow> body)"

definition html_to_markdown :: "world \<Rightarrow> ustring \<Rightarrow> exn + ustring" where
  "html_to_markdown w html_content =
     (case render_article w html_content of
        Inl e \<Rightarrow> Inl e
      | Inr markdown_content \<Rightarrow> Inr (clean_markdown markdown_content))"

section \<open>The prompt\<close>

definition TRUNCATION_NOTICE :: ustring where
  "TRUNCATION_NOTICE =
     ustr ''\<newline>\<newline>['' @ [304, 231] @ ustr ''erik '' @ [231] @ ustr ''ok uzun oldu'' @ [287]
     @ ustr ''u i'' @ [231] @ ustr ''in k'' @ [305] @ ustr ''salt'' @ [305] @ ustr ''ld'' @ [305]
     @ ustr '']''"

definition truncate_content :: "ustring \<Rightarrow> ustring" where
  "truncate_content markdown_content =
     (if 15000 < length markdown_content
      then take 15000 markdown_content @ TRUNCATION_NOTICE
      else markdown_content)"

definition PROMPT_TEMPLATE :: ustring where
  \<open>PROMPT_TEMPLATE = concat
     [ustr ''\<newline>'',
      ustr ''        Bu i'' @ [231] @ ustr ''erik Roma'daki yemek rehberi hakk'' @ [305] @ ustr ''nda bilgiler i'' @ [231] @ ustr ''eriyor. L'' @ [252] @ ustr ''tfen a'' @ [351] @ ustr ''a'' @ [287, 305] @ ustr ''daki bilgileri '' @ [231, 305] @ ustr ''kar ve JSON format'' @ [305] @ ustr ''nda yan'' @ [305] @ ustr ''t ver:\<newline>'',
      ustr ''        \<newline>'',
      ustr ''        1. Roma'da denenmesi gereken en '' @ [246] @ ustr ''nemli yemekler ve tatl'' @ [305] @ ustr ''lar nelerdir?\<newline>'',
      ustr ''        2. Her yemek i'' @ [231] @ ustr ''in en iyi restoranlar hangileridir? (Adres ve ileti'' @ [351] @ ustr ''im bilgileriyle)\<newline>'',
      ustr ''        3. Roma mutfa'' @ [287, 305] @ ustr ''n'' @ [305] @ ustr ''n genel '' @ [246] @ ustr ''zellikleri nelerdir?\<newline>'',
      ustr ''        \<newline>'',
      ustr ''        Yan'' @ [305] @ ustr ''t'' @ [305] @ ustr ''n'' @ [305] @ ustr '' '' @ [351] @ ustr ''u formatta yap'' @ [305] @ ustr ''land'' @ [305] @ ustr ''r:\<newline>'',
      ustr ''        {\<newline>'',
      ustr ''          "roma_mutfagi_ozellikleri": "...",\<newline>'',
      ustr ''          "yemekler": [\<newline>'',
      ustr ''            {\<newline>'',
      ustr ''              "isim": "Yemek ad'' @ [305] @ ustr ''",\<newline>'',
      ustr ''              "aciklama": "Yemek hakk'' @ [305] @ ustr ''nda k'' @ [305] @ ustr ''sa a'' @ [231, 305] @ ustr ''klama",\<newline>'',
      ustr ''              "en_iyi_restoranlar": [\<newline>'',
      ustr ''                {\<newline>'',
      ustr ''                  "isim": "Restoran ad'' @ [305] @ ustr ''",\<newline>'',
      ustr ''                  "adres": "Adres",\<newline>'',
      ustr ''                  "iletisim": "Telefon veya web sitesi"\<newline>'',
      ustr ''                }\<newline>'',
      ustr ''              ]\<newline>'',
      ustr ''            }\<newline>'',
      ustr ''          ]\<newline>'',
      ustr ''        }\<newline>'',
      ustr ''        \<newline>'',
      ustr ''        '' @ [304, 351] @ ustr ''lenecek i'' @ [231] @ ustr ''erik:\<newline>'',
      ustr ''        \<newline>'',
      ustr ''        '']\<close>

definition SYSTEM_MESSAGE :: ustring where
  "SYSTEM_MESSAGE =
     ustr ''Sen bir yemek ve seyahat uzman'' @ [305] @ ustr ''s'' @ [305]
     @ ustr ''n. Verilen i'' @ [231] @ ustr ''erikten yap'' @ [305] @ ustr ''land'' @ [305]
     @ ustr ''r'' @ [305] @ ustr ''lm'' @ [305, 351] @ ustr '' bilgi '' @ [231, 305]
     @ ustr ''karabilirsin.''"

definition user_prompt :: "ustring \<Rightarrow> ustring" where
  "user_prompt markdown_content = PROMPT_TEMPLATE @ truncate_content markdown_content"

section \<open>The reply\<close>

text \<open>
  \<open>re.search(r'```json\s*([\s\S]*?)\s*```', result_text)\<close>, group 1. The search takes the
  leftmost position where the pattern matches. Behind the opening fence the first \<open>\s*\<close>
  is greedy and takes the whole run of whitespace; the group is lazy and ends at the first
  position from which whitespace alone leads to a closing fence. Giving back whitespace
  from the first \<open>\s*\<close> cannot produce a match where the whole run produces none, as the
  whitespace given back would lead to the same closing fence, so the model does not
  backtrack there.
\<close>

definition FENCE_OPEN :: ustring where
  "FENCE_OPEN = ustr ''```json''"

definition FENCE_CLOSE :: ustring where
  "FENCE_CLOSE = ustr ''```''"

fun lazy_group :: "ustring \<Rightarrow> ustring option" where
  "lazy_group [] = None"
| "lazy_group (c # cs) =
     (if prefix FENCE_CLOSE (dropWhile is_space (c # cs)) then Some []
      else map_option ((#) c) (lazy_group cs))"

fun json_match :: "ustring \<Rightarrow> ustring option" where
  "json_match [] = None"
| "json_match (c # cs) =
     (if prefix FENCE_OPEN (c # cs)
      then (case lazy_group (dropWhile is_space (drop (length FENCE_OPEN) (c # cs))) of
              Some g \<Rightarrow> Some g
            | None \<Rightarrow> json_match cs)
      else json_match cs)"

text \<open>The text handed to \<open>json.loads\<close>: \<open>result_text\<close> after line 215.\<close>

definition parse_candidate :: "ustring \<Rightarrow> ustring" where
  "parse_candidate result_text =
     (case json_match result_text of Some g \<Rightarrow> g | None \<Rightarrow> result_text)"

definition error_result :: "ustring \<Rightarrow> pyval" where
  "error_result msg =
     PDict [(ustr ''error'', PBool True), (ustr ''error_message'', PStr msg)]"

definition text_result :: "ustring \<Rightarrow> pyval" where
  "text_result txt =
     PDict [(ustr ''error'', PBool False), (ustr ''text_response'', PStr txt),
            (ustr ''format'', PStr (ustr ''text''))]"

text \<open>
  Lines 207 to 236 on a reply text. The inner handler catches \<open>JSONDecodeError\<close> only;
  any other exception of the decoder reaches the outer \<open>except Exception\<close>.
\<close>

definition parse_reply :: "(ustring \<Rightarrow> loads_outcome) \<Rightarrow> ustring \<Rightarrow> pyval" where
  "parse_reply loads result_text =
     (case loads (parse_candidate result_text) of
        Parsed v \<Rightarrow> v
      | JSONDecodeError \<Rightarrow> text_result (parse_candidate result_text)
      | LoadsRaises e \<Rightarrow> error_result e)"

definition process_with_openai :: "world \<Rightarrow> ustring \<Rightarrow> pyval \<times> event list" where
  "process_with_openai w markdown_content =
     (let prompt = user_prompt markdown_content
      in (case chat_create w SYSTEM_MESSAGE prompt of
            CreateRaises e \<Rightarrow> error_result e
          | NoText e \<Rightarrow> error_result e
          | Reply result_text \<Rightarrow> parse_reply (json_loads w) result_text,
          [ChatCompletion prompt]))"

section \<open>The pipeline\<close>

definition TITLE :: ustring where
  "TITLE = ustr ''Roma'da Ne Nerede Yenir''"

definition scrape_and_process_roma_yemek ::
    "world \<Rightarrow> scraper \<Rightarrow> ustring \<Rightarrow> (exn + results) \<times> event list" where
  "scrape_and_process_roma_yemek w self target =
     (let res = \<lparr>url = target, title = TITLE, processed = False, openai_result = PDict []\<rparr>;
          html_content = scrape_with_requests w self target
      in if html_content = [] then (Inr res, [HttpGet target])
         else (case html_to_markdown w html_content of
                 Inl e \<Rightarrow> (Inl e, [HttpGet target])
               | Inr markdown_content \<Rightarrow>
                   (let (answer, evs) = process_with_openai w markdown_content
                    in (Inr (res\<lparr>openai_result := answer, processed := True\<rparr>),
                        HttpGet target # evs))))"

section \<open>The report of main\<close>

text \<open>
  \<open>key in v\<close> for a string key: membership among the keys of a dictionary, among the
  elements of a list, as a substring of a string; a \<open>TypeError\<close> on any other value.
\<close>

fun py_in :: "ustring \<Rightarrow> pyval \<Rightarrow> exn + bool" where
  "py_in k (PDict kvs) = Inr (k \<in> set (map fst kvs))"
| "py_in k (PList xs) = Inr (PStr k \<in> set xs)"
| "py_in k (PStr s) = Inr (sublist k s)"
| "py_in k v = Inl TypeError"

text \<open>\<open>v[key]\<close> for a string key: the entry of a dictionary, an error on anything else.\<close>

fun py_item :: "pyval \<Rightarrow> ustring \<Rightarrow> exn + pyval" where
  "py_item (PDict kvs) k = (case map_of kvs k of Some v \<Rightarrow> Inr v | None \<Rightarrow> Inl (KeyError k))"
| "py_item v k = Inl TypeError"

datatype printed = SummaryHeader | Summary pyval | FailureBanner | FailureMessage pyval

text \<open>
  Lines 299 to 305: what is printed, and the exception that ends the run if one is raised.
  The banners are constants; \<open>Summary v\<close> stands for the printed \<open>json.dumps\<close> of
  \<open>v\<close> and \<open>FailureMessage m\<close> for the line that shows \<open>m\<close>.
  \<open>and\<close> does not evaluate its second operand when \<open>processed\<close> is false.
\<close>

definition report_failure :: "results \<Rightarrow> printed list \<times> exn option" where
  "report_failure res =
     (case py_in (ustr ''error_message'') (openai_result res) of
        Inl e \<Rightarrow> ([FailureBanner], Some e)
      | Inr False \<Rightarrow> ([FailureBanner], None)
      | Inr True \<Rightarrow>
          (case py_item (openai_result res) (ustr ''error_message'') of
             Inl e \<Rightarrow> ([FailureBanner], Some e)
           | Inr m \<Rightarrow> ([FailureBanner, FailureMessage m], None)))"

definition report :: "results \<Rightarrow> printed list \<times> exn option" where
  "report res =
     (if processed res
      then (case py_in (ustr ''error'') (openai_result res) of
              Inl e \<Rightarrow> ([], Some e)
            | Inr True \<Rightarrow> report_failure res
            | Inr False \<Rightarrow> ([SummaryHeader, Summary (openai_result res)], None))
      else report_failure res)"

definition ROMA_YEMEK_URL :: ustring where
  "ROMA_YEMEK_URL = ustr ''https://www.bizevdeyokuz.com/roma-ne-nerede-yenir''"

definition main :: "world \<Rightarrow> (printed list \<times> exn option) \<times> event list" where
  "main w =
     (let self = RomaYemekScraper (ustr ''open_api_keyiniz'') None None 30
      in (case scrape_and_process_roma_yemek w self ROMA_YEMEK_URL of
            (Inl e, evs) \<Rightarrow> (([], Some e), evs)
          | (Inr res, evs) \<Rightarrow>
              (case write_json w res of
                 Some e \<Rightarrow> (([], Some e), evs)
               | None \<Rightarrow> (report res, evs))))"


section \<open>Stand-ins for the collaborators\<close>

text \<open>
  Concrete collaborators for the examples: a page that answers or a connection that fails,
  a fixed rendering, a fixed reply of the completion service, and a decoder that agrees
  with \<open>json.loads\<close> on the texts the examples hand to it (one JSON object, and prose
  that is no JSON).
\<close>

text \<open>A markdown text with blank lines, outer whitespace and boilerplate, and its cleaned form.\<close>

definition SAMPLE_MARKDOWN :: ustring where
  "SAMPLE_MARKDOWN = ustr
     ''  a\<newline>\<newline>\<newline>\<newline>Skip to  content Skip to content menu\<newline>\<newline>\<newline>Biz Evde Yokuz tarif\<newline> ''"

definition SAMPLE_CLEANED :: ustring where
  "SAMPLE_CLEANED = ustr ''a\<newline>\<newline>Skip to  content Biz Evde Yokuz tarif''"

text \<open>A markdown text that starts with the boilerplate span.\<close>

definition SPAN_MARKDOWN :: ustring where
  "SPAN_MARKDOWN = ustr ''Skip to content menu Biz Evde Yokuz tarif''"

definition sample_loads :: "ustring \<Rightarrow> loads_outcome" where
  \<open>sample_loads s =
     (if s = ustr ''{"a":1}'' then Parsed (PDict [(ustr ''a'', PInt 1)]) else JSONDecodeError)\<close>

definition sample_world :: "http_outcome \<Rightarrow> ustring \<Rightarrow> world" where
  "sample_world page reply =
     \<lparr>requests_get = (\<lambda>target headers proxies tmo. page),
      render_article = (\<lambda>html. Inr (ustr ''# Roma\<newline>\<newline>\<newline>\<newline>Carbonara '')),
      chat_create = (\<lambda>system user. Reply reply),
      json_loads = sample_loads,
      write_json = (\<lambda>res. None)\<rparr>"

definition sample_scraper :: scraper where
  "sample_scraper = RomaYemekScraper (ustr ''open_api_keyiniz'') None None 30"

definition PAGE_OK :: http_outcome where
  "PAGE_OK = Response 200 (ustr ''<article><h1>Roma</h1><p>Carbonara</p></article>'')"

definition PAGE_DOWN :: http_outcome where
  "PAGE_DOWN = GetRaises (ustr ''connection refused'')"

definition FENCED_PROSE :: ustring where
  "FENCED_PROSE = ustr ''```json\<newline>not json\<newline>```''"

definition FENCED_JSON :: ustring where
  \<open>FENCED_JSON = ustr ''```json\<newline>{"a":1}\<newline>```''\<close>


section \<open>Whitespace and strip\<close>

lemma strip_decomp:
  "\<exists>a b. s = a @ strip s @ b \<and> (\<forall>c\<in>set a. is_space c) \<and> (\<forall>c\<in>set b. is_space c)"
proof -
  let ?a = "takeWhile is_space s"
  let ?m = "dropWhile is_space s"
  let ?b = "rev (takeWhile is_space (rev ?m))"
  have 1: "s = ?a @ ?m" by simp
  have "?m = rev (takeWhile is_space (rev ?m) @ dropWhile is_space (rev ?m))"
    by (simp only: takeWhile_dropWhile_id rev_rev_ident)
  also have "\<dots> = strip s @ ?b"
    unfolding strip_def by (rule rev_append)
  finally have 2: "?m = strip s @ ?b" .
  have 3: "\<forall>c\<in>set ?a. is_space c" by (auto dest: set_takeWhileD)
  have 4: "\<forall>c\<in>set ?b. is_space c" by (auto dest: set_takeWhileD)
  from 1 2 have "s = ?a @ strip s @ ?b" by simp
  with 3 4 show ?thesis by blast
qed

lemma trimmed_strip: "trimmed (strip s)"
proof (cases "strip s = []")
  case True then show ?thesis by (simp add: trimmed_def)
next
  case False
  let ?m = "dropWhile is_space s"
  let ?r = "dropWhile is_space (rev ?m)"
  from False have r: "?r \<noteq> []" by (simp add: strip_def)
  then have h: "\<not> is_space (hd ?r)" by (rule hd_dropWhile)
  have m: "?m \<noteq> []"
  proof
    assume "?m = []"
    then have "?r = []" by (simp only: rev.simps dropWhile.simps)
    with r show False ..
  qed
  then have hm: "\<not> is_space (hd ?m)" by (rule hd_dropWhile)
  have l: "last (strip s) = hd ?r" using r by (simp add: strip_def last_rev)
  obtain t where t: "rev ?m = takeWhile is_space (rev ?m) @ ?r" by simp
  have "?m = rev ?r @ rev (takeWhile is_space (rev ?m))"
    by (metis rev_append rev_rev_ident takeWhile_dropWhile_id)
  then have "hd ?m = hd (rev ?r)" using r by (metis hd_append2 rev_is_Nil_conv)
  then have "hd (strip s) = hd ?m" by (simp add: strip_def)
  with hm h l False show ?thesis by (simp add: trimmed_def)
qed

lemma strip_around:
  assumes "trimmed s" "\<forall>c\<in>set a. is_space c" "\<forall>c\<in>set b. is_space c"
  shows "strip (a @ s @ b) = s"
proof (cases "s = []")
  case True
  from assms(2,3) have "\<forall>c\<in>set (a @ b). is_space c" by auto
  then have "dropWhile is_space (a @ b) = []" by (simp only: dropWhile_eq_Nil_conv)
  then have "strip (a @ b) = []" by (simp only: strip_def rev.simps dropWhile.simps)
  with True show ?thesis by simp
next
  case False
  with assms have h: "\<not> is_space (hd s)" and l: "\<not> is_space (last s)"
    by (auto simp: trimmed_def)
  from False obtain x xs where s: "s = x # xs" by (cases s) auto
  from False obtain ys y where s': "s = ys @ [y]" by (cases s rule: rev_cases) auto
  have 1: "dropWhile is_space (a @ s @ b) = s @ b"
    using assms(2) h s by (simp add: dropWhile_append3)
  have 2: "dropWhile is_space (rev b @ rev s) = rev s"
    using assms(3) l s' by (simp add: dropWhile_append3)
  show ?thesis using 1 2 by (simp add: strip_def)
qed

lemma strip_trimmed: "trimmed s \<Longrightarrow> strip s = s"
  using strip_around [of s "[]" "[]"] by simp


section \<open>The blank-line substitution\<close>

lemma nl_run_replicate: "nl_run s = replicate (length (nl_run s)) NL"
  by (induction s) auto

lemma prefix_NL3_run: "prefix NL3 s \<longleftrightarrow> 3 \<le> length (nl_run s)"
proof
  assume "prefix NL3 s"
  then obtain r where "s = NL # NL # NL # r" by (auto simp: NL3_def prefix_def)
  then show "3 \<le> length (nl_run s)" by simp
next
  assume a: "3 \<le> length (nl_run s)"
  have "s = nl_run s @ dropWhile (\<lambda>x. x = NL) s" by simp
  moreover have "prefix NL3 (nl_run s)"
  proof -
    obtain k where k: "length (nl_run s) = 3 + k" using a by (metis le_Suc_ex)
    have "nl_run s = replicate (3 + k) NL" using nl_run_replicate [of s] k by simp
    then have "nl_run s = NL3 @ replicate k NL"
      by (simp add: NL3_def numeral_3_eq_3)
    then show ?thesis by simp
  qed
  ultimately show "prefix NL3 s" by (metis prefix_prefix)
qed

lemma match_blank_lines_iff: "match_blank_lines s = None \<longleftrightarrow> \<not> prefix NL3 s"
  by (simp add: match_blank_lines_def prefix_NL3_run)

lemma nl_run_sub_blank_lines: "nl_run (sub_blank_lines s) = take 2 (nl_run s)"
proof (induction s rule: sub_blank_lines.induct)
  case 1
  show ?case by simp
next
  case (2 c cs)
  show ?case
  proof (cases "match_blank_lines (c # cs)")
    case (Some rest)
    then have len: "3 \<le> length (nl_run (c # cs))"
      and rest: "rest = dropWhile (\<lambda>x. x = NL) (c # cs)"
      by (auto simp: match_blank_lines_def split: if_splits)
    have "nl_run rest = []" unfolding rest by (induction cs arbitrary: c) auto
    with 2(2) [OF Some] have "nl_run (sub_blank_lines rest) = []" by simp
    then have l: "nl_run (sub_blank_lines (c # cs)) = [NL, NL]" using Some by simp
    obtain k where k: "length (nl_run (c # cs)) = 3 + k" using len by (metis le_Suc_ex)
    have "nl_run (c # cs) = replicate (3 + k) NL"
      using nl_run_replicate [of "c # cs"] k by simp
    then have "take 2 (nl_run (c # cs)) = [NL, NL]"
      by (simp add: numeral_3_eq_3 numeral_2_eq_2)
    with l show ?thesis by simp
  next
    case None
    then have short: "length (nl_run (c # cs)) < 3"
      by (auto simp: match_blank_lines_def split: if_splits)
    show ?thesis
    proof (cases "c = NL")
      case True
      with short have "length (nl_run cs) \<le> 1" by simp
      then have t: "take 2 (nl_run cs) = nl_run cs" "take 1 (nl_run cs) = nl_run cs"
        by simp_all
      have "nl_run (sub_blank_lines (c # cs)) = NL # nl_run (sub_blank_lines cs)"
        using None True by simp
      also have "\<dots> = NL # nl_run cs" using 2(1) [OF None] t(1) by simp
      also have "\<dots> = take 2 (NL # nl_run cs)" using t(2) by (simp add: numeral_2_eq_2)
      also have "\<dots> = take 2 (nl_run (c # cs))" using True by simp
      finally show ?thesis .
    next
      case False
      with None show ?thesis by simp
    qed
  qed
qed

lemma sub_blank_lines_no_triple: "\<not> sublist NL3 (sub_blank_lines s)"
proof (induction s rule: sub_blank_lines.induct)
  case 1
  show ?case by (simp add: NL3_def)
next
  case (2 c cs)
  have "length (nl_run (sub_blank_lines (c # cs))) \<le> 2"
    unfolding nl_run_sub_blank_lines by simp
  then have np: "\<not> prefix NL3 (sub_blank_lines (c # cs))"
    unfolding prefix_NL3_run by linarith
  show ?case
  proof (cases "match_blank_lines (c # cs)")
    case (Some rest)
    let ?w = "sub_blank_lines rest"
    from Some have eq: "sub_blank_lines (c # cs) = NL # NL # ?w" by simp
    have "\<not> prefix NL3 (NL # ?w)"
    proof
      assume "prefix NL3 (NL # ?w)"
      then have "prefix NL3 (NL # NL # ?w)" by (auto simp: NL3_def prefix_def)
      with np eq show False by simp
    qed
    with np eq 2(2) [OF Some] show ?thesis by (simp add: sublist_Cons_right)
  next
    case None
    with 2(1) [OF None] None np show ?thesis by (simp add: sublist_Cons_right)
  qed
qed


lemma sub_blank_lines_id: "\<not> sublist NL3 s \<Longrightarrow> sub_blank_lines s = s"
proof (induction s rule: sub_blank_lines.induct)
  case 1
  show ?case by simp
next
  case (2 c cs)
  from 2(3) have np: "\<not> prefix NL3 (c # cs)" and ns: "\<not> sublist NL3 cs"
    by (simp_all add: sublist_Cons_right)
  from np have None: "match_blank_lines (c # cs) = None" by (simp add: match_blank_lines_iff)
  with 2(1) [OF None ns] show ?case by simp
qed

lemma nl_run_replicate_append: "nl_run (replicate j NL @ r) = replicate j NL @ nl_run r"
  by (induction j) auto

lemma sub_blank_lines_short_run:
  assumes "nl_run r = []" "k < 3"
  shows "sub_blank_lines (replicate k NL @ r) = replicate k NL @ sub_blank_lines r"
proof -
  have m: "\<And>j. j < 3 \<Longrightarrow> match_blank_lines (replicate j NL @ r) = None"
    using assms(1) by (simp add: match_blank_lines_def nl_run_replicate_append)
  from assms(2) consider "k = 0" | "k = 1" | "k = 2" by linarith
  then show ?thesis
  proof cases
    case 1 then show ?thesis by simp
  next
    case 2
    with m [of 1] show ?thesis by simp
  next
    case 3
    with m [of 1] m [of 2] show ?thesis by (simp add: numeral_2_eq_2)
  qed
qed

lemma sub_blank_lines_runs: "sub_blank_lines s = collapse_runs s"
proof (induction s rule: collapse_runs.induct)
  case 1
  show ?case by simp
next
  case (2 c cs)
  show ?case
  proof (cases "c = NL")
    case False
    then have "match_blank_lines (c # cs) = None" by (simp add: match_blank_lines_def)
    with False 2(2) show ?thesis by simp
  next
    case True
    let ?run = "nl_run (c # cs)"
    let ?rest = "dropWhile (\<lambda>x. x = NL) cs"
    have ih: "sub_blank_lines ?rest = collapse_runs ?rest" using 2(1) [OF True refl] .
    have rest: "dropWhile (\<lambda>x. x = NL) (c # cs) = ?rest" using True by simp
    show ?thesis
    proof (cases "3 \<le> length ?run")
      case long: True
      then have "match_blank_lines (c # cs) = Some ?rest"
        by (simp only: match_blank_lines_def rest if_True)
      with long True ih show ?thesis by (simp add: Let_def)
    next
      case short: False
      have "nl_run ?rest = []" by (induction cs) auto
      moreover have "length ?run < 3" using short by simp
      ultimately have "sub_blank_lines (replicate (length ?run) NL @ ?rest)
          = replicate (length ?run) NL @ sub_blank_lines ?rest"
        by (rule sub_blank_lines_short_run)
      moreover have "replicate (length ?run) NL = ?run" using nl_run_replicate [of "c # cs"] by simp
      moreover have "?run @ ?rest = c # cs" using rest takeWhile_dropWhile_id [of "\<lambda>x. x = NL" "c # cs"] by simp
      ultimately have "sub_blank_lines (c # cs) = ?run @ sub_blank_lines ?rest" by simp
      with short True ih show ?thesis by (simp add: Let_def)
    qed
  qed
qed


section \<open>The boilerplate substitution\<close>

lemma SKIP_unfold: "SKIP_TO_CONTENT = 83 # ustr ''kip to content''"
  by (simp add: SKIP_TO_CONTENT_def ustr_def)

lemma BIZ_unfold: "BIZ_EVDE_YOKUZ = 66 # ustr ''iz Evde Yokuz''"
  by (simp add: BIZ_EVDE_YOKUZ_def ustr_def)

lemma SKIP_facts:
  "length SKIP_TO_CONTENT = 15" "66 \<notin> set SKIP_TO_CONTENT" "SKIP_TO_CONTENT \<noteq> []"
  "\<not> is_space (last SKIP_TO_CONTENT)"
  by (simp_all add: SKIP_TO_CONTENT_def ustr_def is_space_def)

lemma BIZ_facts:
  "length BIZ_EVDE_YOKUZ = 14" "83 \<notin> set BIZ_EVDE_YOKUZ" "BIZ_EVDE_YOKUZ \<noteq> []"
  "\<not> is_space (last BIZ_EVDE_YOKUZ)" "NL \<notin> set BIZ_EVDE_YOKUZ"
  "66 \<notin> set (ustr ''iz Evde Yokuz'')" "last BIZ_EVDE_YOKUZ = 122"
  by (simp_all add: BIZ_EVDE_YOKUZ_def ustr_def is_space_def NL_def)

lemma match_boilerplate_other: "c \<noteq> 83 \<Longrightarrow> match_boilerplate (c # cs) = None"
  by (simp add: match_boilerplate_def SKIP_unfold)

lemma sub_boilerplate_copy:
  "83 \<notin> set p \<Longrightarrow> sub_boilerplate (p @ w) = p @ sub_boilerplate w"
  by (induction p) (simp_all add: match_boilerplate_other)

lemma find_after_Some: "find_after n s = Some r \<Longrightarrow> \<exists>pre. s = pre @ n @ r"
proof (induction s)
  case Nil
  then show ?case by (simp split: if_splits)
next
  case (Cons c cs)
  show ?case
  proof (cases "prefix n (c # cs)")
    case True
    with Cons.prems have r: "r = drop (length n) (c # cs)" by simp
    from True obtain z where z: "c # cs = n @ z" by (auto simp: prefix_def)
    with r have "c # cs = [] @ n @ r" by simp
    then show ?thesis by blast
  next
    case False
    with Cons.prems have "find_after n cs = Some r" by simp
    then obtain pre where "cs = pre @ n @ r" using Cons.IH by blast
    then have "c # cs = (c # pre) @ n @ r" by simp
    then show ?thesis by blast
  qed
qed

lemma find_after_None: "find_after n s = None \<longleftrightarrow> \<not> sublist n s"
  by (induction s) (auto simp: sublist_Cons_right)

lemma match_boilerplate_Some:
  assumes "match_boilerplate s = Some r"
  shows "\<exists>pre. s = SKIP_TO_CONTENT @ pre @ BIZ_EVDE_YOKUZ @ r"
proof -
  from assms have p: "prefix SKIP_TO_CONTENT s"
    and f: "find_after BIZ_EVDE_YOKUZ (drop (length SKIP_TO_CONTENT) s) = Some r"
    by (auto simp: match_boilerplate_def split: if_splits)
  from p obtain z where z: "s = SKIP_TO_CONTENT @ z" by (auto simp: prefix_def)
  with f have "find_after BIZ_EVDE_YOKUZ z = Some r" by simp
  then obtain pre where "z = pre @ BIZ_EVDE_YOKUZ @ r" using find_after_Some by blast
  with z show ?thesis by blast
qed

lemma match_boilerplate_append:
  "match_boilerplate (SKIP_TO_CONTENT @ v) = find_after BIZ_EVDE_YOKUZ v"
  by (simp add: match_boilerplate_def)

lemma sub_boilerplate_prefix:
  "prefix p (sub_boilerplate s) \<Longrightarrow> 66 \<notin> set p \<Longrightarrow>
     \<exists>v. s = p @ v \<and> sub_boilerplate s = p @ sub_boilerplate v"
proof (induction p arbitrary: s)
  case Nil
  show ?case by simp
next
  case (Cons a p)
  from Cons.prems(1) obtain c cs where s: "s = c # cs" by (cases s) auto
  have None: "match_boilerplate (c # cs) = None"
  proof (cases "match_boilerplate (c # cs)")
    case (Some rest)
    with Cons.prems s have False by (simp add: BIZ_unfold)
    then show ?thesis ..
  qed simp
  with Cons.prems(1) s have a: "a = c" and p: "prefix p (sub_boilerplate cs)" by simp_all
  from Cons.prems(2) have "66 \<notin> set p" by simp
  from Cons.IH [OF p this] obtain v where "cs = p @ v" "sub_boilerplate cs = p @ sub_boilerplate v"
    by blast
  with s a None have "s = (a # p) @ v \<and> sub_boilerplate s = (a # p) @ sub_boilerplate v"
    by simp
  then show ?case by blast
qed

lemma sub_boilerplate_anchor:
  "sublist BIZ_EVDE_YOKUZ (sub_boilerplate s) \<Longrightarrow> sublist BIZ_EVDE_YOKUZ s"
proof (induction s rule: sub_boilerplate.induct)
  case 1
  then show ?case by simp
next
  case (2 c cs)
  show ?case
  proof (cases "match_boilerplate (c # cs)")
    case (Some rest)
    then obtain pre where "c # cs = SKIP_TO_CONTENT @ pre @ BIZ_EVDE_YOKUZ @ rest"
      using match_boilerplate_Some by blast
    then have "c # cs = (SKIP_TO_CONTENT @ pre) @ BIZ_EVDE_YOKUZ @ rest" by simp
    then show ?thesis unfolding sublist_def by blast
  next
    case None
    with 2(3) have "prefix BIZ_EVDE_YOKUZ (c # sub_boilerplate cs)
        \<or> sublist BIZ_EVDE_YOKUZ (sub_boilerplate cs)"
      by (simp add: sublist_Cons_right)
    then show ?thesis
    proof
      assume "sublist BIZ_EVDE_YOKUZ (sub_boilerplate cs)"
      with 2(1) [OF None] show ?thesis by (simp add: sublist_Cons_right)
    next
      assume "prefix BIZ_EVDE_YOKUZ (c # sub_boilerplate cs)"
      then have c: "c = 66" and "prefix (ustr ''iz Evde Yokuz'') (sub_boilerplate cs)"
        by (simp_all add: BIZ_unfold)
      from sub_boilerplate_prefix [OF this(2) BIZ_facts(6)]
      have "prefix (ustr ''iz Evde Yokuz'') cs" by auto
      with c have "prefix BIZ_EVDE_YOKUZ (c # cs)" by (simp add: BIZ_unfold)
      then show ?thesis by (simp add: sublist_Cons_right)
    qed
  qed
qed

lemma match_boilerplate_stable:
  assumes "match_boilerplate (c # cs) = None"
  shows "match_boilerplate (c # sub_boilerplate cs) = None"
proof (cases "match_boilerplate (c # sub_boilerplate cs)")
  case (Some r)
  then have p: "prefix SKIP_TO_CONTENT (c # sub_boilerplate cs)"
    by (auto simp: match_boilerplate_def split: if_splits)
  then have c: "c = 83" and p': "prefix (ustr ''kip to content'') (sub_boilerplate cs)"
    by (simp_all add: SKIP_unfold)
  have "66 \<notin> set (ustr ''kip to content'')" using SKIP_facts(2) by (simp add: SKIP_unfold)
  from sub_boilerplate_prefix [OF p' this] obtain v
    where v: "cs = ustr ''kip to content'' @ v"
      "sub_boilerplate cs = ustr ''kip to content'' @ sub_boilerplate v"
    by blast
  from v(2) c have "c # sub_boilerplate cs = SKIP_TO_CONTENT @ sub_boilerplate v"
    by (simp add: SKIP_unfold)
  with Some have "find_after BIZ_EVDE_YOKUZ (sub_boilerplate v) = Some r"
    by (simp only: match_boilerplate_append)
  then have "sublist BIZ_EVDE_YOKUZ (sub_boilerplate v)"
    using find_after_None [of BIZ_EVDE_YOKUZ "sub_boilerplate v"] by simp
  then have "sublist BIZ_EVDE_YOKUZ v" by (rule sub_boilerplate_anchor)
  then have "find_after BIZ_EVDE_YOKUZ v \<noteq> None" by (simp add: find_after_None)
  moreover from v(1) c have "c # cs = SKIP_TO_CONTENT @ v" by (simp add: SKIP_unfold)
  ultimately have "match_boilerplate (c # cs) \<noteq> None"
    by (simp add: match_boilerplate_append)
  with assms show ?thesis by simp
qed simp

lemma sub_boilerplate_idem: "sub_boilerplate (sub_boilerplate s) = sub_boilerplate s"
proof (induction s rule: sub_boilerplate.induct)
  case 1
  show ?case by simp
next
  case (2 c cs)
  show ?case
  proof (cases "match_boilerplate (c # cs)")
    case (Some rest)
    with 2(2) [OF Some] show ?thesis
      by (simp add: sub_boilerplate_copy [OF BIZ_facts(2)])
  next
    case None
    from match_boilerplate_stable [OF None] 2(1) [OF None] None show ?thesis by simp
  qed
qed

lemma prefix_trailing:
  assumes "p \<noteq> []" "\<not> is_space (last p)" "\<forall>c\<in>set ws. is_space c"
  shows "prefix p (t @ ws) \<longleftrightarrow> prefix p t"
proof
  assume "prefix p (t @ ws)"
  then have "prefix p t \<or> (\<exists>us. p = t @ us \<and> prefix us ws)" by (simp add: prefix_append)
  then show "prefix p t"
  proof
    assume "\<exists>us. p = t @ us \<and> prefix us ws"
    then obtain us where us: "p = t @ us" "prefix us ws" by blast
    show ?thesis
    proof (cases "us = []")
      case True with us show ?thesis by simp
    next
      case False
      with us(1) have "last p = last us" by simp
      moreover from False have "last us \<in> set us" by simp
      moreover from us(2) have "set us \<subseteq> set ws" by (rule set_mono_prefix)
      ultimately have "is_space (last p)" using assms(3) by auto
      with assms(2) show ?thesis by simp
    qed
  qed
next
  assume "prefix p t" then show "prefix p (t @ ws)" by (rule prefix_prefix)
qed

lemma find_after_trailing:
  assumes "n \<noteq> []" "\<not> is_space (last n)" "\<forall>c\<in>set ws. is_space c"
  shows "find_after n (t @ ws) = map_option (\<lambda>r. r @ ws) (find_after n t)"
proof (induction t)
  case Nil
  have "\<not> sublist n ws"
  proof
    assume "sublist n ws"
    then have "set n \<subseteq> set ws" by (rule set_mono_sublist)
    moreover have "last n \<in> set n" using assms(1) by simp
    ultimately show False using assms(2,3) by auto
  qed
  then have "find_after n ws = None" by (simp add: find_after_None)
  with assms(1) show ?case by simp
next
  case (Cons c cs)
  have p: "prefix n (c # cs @ ws) \<longleftrightarrow> prefix n (c # cs)"
    using prefix_trailing [OF assms, of "c # cs"] by simp
  show ?case
  proof (cases "prefix n (c # cs)")
    case True
    then have "length n \<le> length (c # cs)" by (rule prefix_length_le)
    then have "drop (length n) (c # cs @ ws) = drop (length n) (c # cs) @ ws"
      using drop_append [of "length n" "c # cs" ws] by simp
    with True p show ?thesis by simp
  next
    case False
    with p Cons.IH show ?thesis by simp
  qed
qed

lemma match_boilerplate_trailing:
  assumes "\<forall>c\<in>set ws. is_space c"
  shows "match_boilerplate (t @ ws) = map_option (\<lambda>r. r @ ws) (match_boilerplate t)"
proof (cases "prefix SKIP_TO_CONTENT t")
  case True
  then obtain z where z: "t = SKIP_TO_CONTENT @ z" by (auto simp: prefix_def)
  show ?thesis
    unfolding z append_assoc match_boilerplate_append
    by (rule find_after_trailing [OF BIZ_facts(3,4) assms])
next
  case False
  then have "\<not> prefix SKIP_TO_CONTENT (t @ ws)"
    using prefix_trailing [OF SKIP_facts(3,4) assms, of t] by simp
  with False show ?thesis by (simp add: match_boilerplate_def)
qed

lemma sub_boilerplate_trailing:
  assumes "\<forall>c\<in>set ws. is_space c"
  shows "sub_boilerplate (t @ ws) = sub_boilerplate t @ ws"
proof (induction t rule: sub_boilerplate.induct)
  case 1
  have "83 \<notin> set ws" using assms by (auto simp: is_space_def)
  from sub_boilerplate_copy [OF this, of "[]"] show ?case by simp
next
  case (2 c cs)
  have m: "match_boilerplate (c # cs @ ws) = map_option (\<lambda>r. r @ ws) (match_boilerplate (c # cs))"
    using match_boilerplate_trailing [OF assms, of "c # cs"] by simp
  show ?case
  proof (cases "match_boilerplate (c # cs)")
    case None
    with m 2(1) [OF None] show ?thesis by simp
  next
    case (Some rest)
    with m 2(2) [OF Some] show ?thesis by simp
  qed
qed

lemma sub_boilerplate_Nil: "sub_boilerplate s = [] \<longleftrightarrow> s = []"
  by (cases s) (auto simp: BIZ_facts split: option.splits)

lemma sub_boilerplate_hd:
  "s \<noteq> [] \<Longrightarrow> hd (sub_boilerplate s) = hd s \<or> hd (sub_boilerplate s) = 66"
  by (cases s) (auto simp: BIZ_unfold split: option.splits)

lemma sub_boilerplate_last: "s \<noteq> [] \<Longrightarrow> last (sub_boilerplate s) = last s"
proof (induction s rule: sub_boilerplate.induct)
  case 1
  then show ?case by simp
next
  case (2 c cs)
  show ?case
  proof (cases "match_boilerplate (c # cs)")
    case None
    show ?thesis
    proof (cases "cs = []")
      case True with None show ?thesis by simp
    next
      case False
      with None 2(1) [OF None False] show ?thesis by (simp add: sub_boilerplate_Nil)
    qed
  next
    case (Some rest)
    then obtain pre where s: "c # cs = SKIP_TO_CONTENT @ pre @ BIZ_EVDE_YOKUZ @ rest"
      using match_boilerplate_Some by blast
    show ?thesis
    proof (cases "rest = []")
      case True
      with s have "last (c # cs) = last BIZ_EVDE_YOKUZ" by (simp add: BIZ_facts(3))
      with True Some show ?thesis by (simp add: BIZ_facts(3))
    next
      case False
      with s have "last (c # cs) = last rest" by simp
      with False Some 2(2) [OF Some False] show ?thesis by (simp add: sub_boilerplate_Nil)
    qed
  qed
qed

lemma trimmed_sub_boilerplate: "trimmed s \<Longrightarrow> trimmed (sub_boilerplate s)"
proof (cases "s = []")
  case True then show ?thesis by (simp add: trimmed_def)
next
  case False
  assume "trimmed s"
  with False have h: "\<not> is_space (hd s)" and l: "\<not> is_space (last s)"
    by (auto simp: trimmed_def)
  have "\<not> is_space 66" by (simp add: is_space_def)
  with h sub_boilerplate_hd [OF False] have "\<not> is_space (hd (sub_boilerplate s))" by auto
  moreover from l sub_boilerplate_last [OF False] have "\<not> is_space (last (sub_boilerplate s))"
    by simp
  ultimately show ?thesis by (simp add: trimmed_def)
qed

lemma sublist_NL3_skip: "NL \<notin> set p \<Longrightarrow> sublist NL3 (p @ w) \<Longrightarrow> sublist NL3 w"
  by (induction p) (auto simp: sublist_Cons_right NL3_def)

lemma sub_boilerplate_no_triple: "\<not> sublist NL3 s \<Longrightarrow> \<not> sublist NL3 (sub_boilerplate s)"
proof (induction s rule: sub_boilerplate.induct)
  case 1
  then show ?case by simp
next
  case (2 c cs)
  show ?case
  proof (cases "match_boilerplate (c # cs)")
    case None
    from 2(3) have np: "\<not> prefix NL3 (c # cs)" and ns: "\<not> sublist NL3 cs"
      by (simp_all add: sublist_Cons_right)
    have "\<not> prefix NL3 (c # sub_boilerplate cs)"
    proof
      assume "prefix NL3 (c # sub_boilerplate cs)"
      then have c: "c = NL" and p: "prefix [NL, NL] (sub_boilerplate cs)"
        by (simp_all add: NL3_def)
      have "66 \<notin> set [NL, NL]" by (simp add: NL_def)
      from sub_boilerplate_prefix [OF p this] have "prefix [NL, NL] cs" by auto
      with c np show False by (simp add: NL3_def)
    qed
    with None 2(1) [OF None ns] show ?thesis by (simp add: sublist_Cons_right)
  next
    case (Some rest)
    then obtain pre where s: "c # cs = (SKIP_TO_CONTENT @ pre @ BIZ_EVDE_YOKUZ) @ rest"
      using match_boilerplate_Some by fastforce
    have "\<not> sublist NL3 rest"
    proof
      assume "sublist NL3 rest"
      then have "sublist NL3 (c # cs)" unfolding s by (metis sublist_append_leftI sublist_order.order_trans)
      with 2(3) show False ..
    qed
    from 2(2) [OF Some this] have "\<not> sublist NL3 (BIZ_EVDE_YOKUZ @ sub_boilerplate rest)"
      using sublist_NL3_skip [OF BIZ_facts(5)] by blast
    with Some show ?thesis by simp
  qed
qed

lemma strip_no_triple: "\<not> sublist NL3 s \<Longrightarrow> \<not> sublist NL3 (strip s)"
proof -
  assume a: "\<not> sublist NL3 s"
  obtain x y where "s = x @ strip s @ y" using strip_decomp by blast
  then have "sublist (strip s) s" unfolding sublist_def by blast
  with a show ?thesis using sublist_order.order_trans by blast
qed

lemma sub_boilerplate_strip: "sub_boilerplate (strip y) = strip (sub_boilerplate y)"
proof -
  obtain a b where d: "y = a @ strip y @ b" and a: "\<forall>c\<in>set a. is_space c"
    and b: "\<forall>c\<in>set b. is_space c"
    using strip_decomp by blast
  from a have "83 \<notin> set a" by (auto simp: is_space_def)
  then have "sub_boilerplate (a @ strip y @ b) = a @ sub_boilerplate (strip y @ b)"
    by (rule sub_boilerplate_copy)
  also have "\<dots> = a @ sub_boilerplate (strip y) @ b"
    by (simp only: sub_boilerplate_trailing [OF b])
  finally have "sub_boilerplate y = a @ sub_boilerplate (strip y) @ b" using d by simp
  moreover have "trimmed (sub_boilerplate (strip y))"
    by (rule trimmed_sub_boilerplate [OF trimmed_strip])
  ultimately show ?thesis using strip_around [OF _ a b] by simp
qed


text \<open>What the substitution does to a text with a span, and to a text without one.\<close>

lemma phrase_no_overlap:
  assumes "prefix p (pre @ p @ w)" "pre \<noteq> []" "p \<noteq> []" "hd p \<notin> set (tl p)"
  shows "prefix p pre"
proof -
  from assms(1) have "prefix p pre \<or> (\<exists>us. p = pre @ us \<and> prefix us (p @ w))"
    by (simp add: prefix_append)
  then show ?thesis
  proof
    assume "\<exists>us. p = pre @ us \<and> prefix us (p @ w)"
    then obtain us where us: "p = pre @ us" "prefix us (p @ w)" by blast
    show ?thesis
    proof (cases us)
      case Nil
      with us(1) show ?thesis by simp
    next
      case (Cons u us')
      from assms(3) obtain x xs where p: "p = x # xs" by (cases p) auto
      with us(2) Cons have "u = x" by simp
      moreover from assms(2) obtain y ys where "pre = y # ys" by (cases pre) auto
      with us(1) Cons p have "xs = ys @ u # us'" by simp
      ultimately have "hd p \<in> set (tl p)" using p by simp
      with assms(4) show ?thesis by simp
    qed
  qed
qed

lemma SKIP_no_overlap: "hd SKIP_TO_CONTENT \<notin> set (tl SKIP_TO_CONTENT)"
  by (simp add: SKIP_TO_CONTENT_def ustr_def)

lemma BIZ_no_overlap: "hd BIZ_EVDE_YOKUZ \<notin> set (tl BIZ_EVDE_YOKUZ)"
  by (simp add: BIZ_EVDE_YOKUZ_def ustr_def)

lemma sub_boilerplate_before_span:
  "\<not> sublist SKIP_TO_CONTENT pre \<Longrightarrow>
     sub_boilerplate (pre @ SKIP_TO_CONTENT @ w) = pre @ sub_boilerplate (SKIP_TO_CONTENT @ w)"
proof (induction pre)
  case Nil
  show ?case by simp
next
  case (Cons c pre)
  from Cons.prems have np: "\<not> prefix SKIP_TO_CONTENT (c # pre)"
    and ns: "\<not> sublist SKIP_TO_CONTENT pre"
    by (simp_all add: sublist_Cons_right)
  have "\<not> prefix SKIP_TO_CONTENT ((c # pre) @ SKIP_TO_CONTENT @ w)"
    using phrase_no_overlap [OF _ _ SKIP_facts(3) SKIP_no_overlap, of "c # pre" w] np by blast
  then have "match_boilerplate (c # pre @ SKIP_TO_CONTENT @ w) = None"
    by (simp add: match_boilerplate_def)
  with Cons.IH [OF ns] show ?case by simp
qed

lemma find_after_first_anchor:
  "\<not> sublist BIZ_EVDE_YOKUZ mid \<Longrightarrow>
     find_after BIZ_EVDE_YOKUZ (mid @ BIZ_EVDE_YOKUZ @ rest) = Some rest"
proof (induction mid)
  case Nil
  have "find_after BIZ_EVDE_YOKUZ (66 # ustr ''iz Evde Yokuz'' @ rest)
      = Some (drop (length BIZ_EVDE_YOKUZ) (66 # ustr ''iz Evde Yokuz'' @ rest))"
    by (simp add: BIZ_unfold)
  then show ?case by (simp add: BIZ_unfold)
next
  case (Cons c mid)
  from Cons.prems have np: "\<not> prefix BIZ_EVDE_YOKUZ (c # mid)"
    and ns: "\<not> sublist BIZ_EVDE_YOKUZ mid"
    by (simp_all add: sublist_Cons_right)
  have "\<not> prefix BIZ_EVDE_YOKUZ ((c # mid) @ BIZ_EVDE_YOKUZ @ rest)"
    using phrase_no_overlap [OF _ _ BIZ_facts(3) BIZ_no_overlap, of "c # mid" rest] np by blast
  with Cons.IH [OF ns] show ?case by simp
qed

lemma sub_boilerplate_span:
  assumes "\<not> sublist SKIP_TO_CONTENT pre" "\<not> sublist BIZ_EVDE_YOKUZ mid"
  shows "sub_boilerplate (pre @ SKIP_TO_CONTENT @ mid @ BIZ_EVDE_YOKUZ @ rest)
           = pre @ BIZ_EVDE_YOKUZ @ sub_boilerplate rest"
proof -
  have m: "match_boilerplate (SKIP_TO_CONTENT @ mid @ BIZ_EVDE_YOKUZ @ rest) = Some rest"
    by (simp only: match_boilerplate_append find_after_first_anchor [OF assms(2)])
  have "sub_boilerplate (SKIP_TO_CONTENT @ mid @ BIZ_EVDE_YOKUZ @ rest)
      = BIZ_EVDE_YOKUZ @ sub_boilerplate rest"
  proof -
    obtain z where z: "SKIP_TO_CONTENT @ mid @ BIZ_EVDE_YOKUZ @ rest = 83 # z"
      by (simp add: SKIP_unfold)
    from m show ?thesis unfolding z by simp
  qed
  with sub_boilerplate_before_span [OF assms(1)] show ?thesis by simp
qed

lemma sub_boilerplate_no_span:
  "(\<forall>u v. t = u @ SKIP_TO_CONTENT @ v \<longrightarrow> \<not> sublist BIZ_EVDE_YOKUZ v) \<Longrightarrow>
     sub_boilerplate t = t"
proof (induction t rule: sub_boilerplate.induct)
  case 1
  show ?case by simp
next
  case (2 c cs)
  have None: "match_boilerplate (c # cs) = None"
  proof (cases "match_boilerplate (c # cs)")
    case (Some rest)
    then obtain pre where "c # cs = [] @ SKIP_TO_CONTENT @ (pre @ BIZ_EVDE_YOKUZ @ rest)"
      using match_boilerplate_Some by fastforce
    with 2(3) have "\<not> sublist BIZ_EVDE_YOKUZ (pre @ BIZ_EVDE_YOKUZ @ rest)" by blast
    then show ?thesis by simp
  qed simp
  have "\<forall>u v. cs = u @ SKIP_TO_CONTENT @ v \<longrightarrow> \<not> sublist BIZ_EVDE_YOKUZ v"
  proof (intro allI impI)
    fix u v assume "cs = u @ SKIP_TO_CONTENT @ v"
    then have "c # cs = (c # u) @ SKIP_TO_CONTENT @ v" by simp
    with 2(3) show "\<not> sublist BIZ_EVDE_YOKUZ v" by blast
  qed
  from 2(1) [OF None this] None show ?case by simp
qed

section \<open>The normalizer: invariant, order of the steps, idempotence\<close>

lemma clean_markdown_no_triple: "\<not> sublist NL3 (clean_markdown s)"
  unfolding clean_markdown_def
  by (intro sub_boilerplate_no_triple strip_no_triple sub_blank_lines_no_triple)

lemma clean_markdown_trimmed: "trimmed (clean_markdown s)"
  unfolding clean_markdown_def
  by (intro trimmed_sub_boilerplate trimmed_strip)

lemma sublist_NL3_replicate: "3 \<le> n \<Longrightarrow> sublist NL3 (replicate n NL)"
proof -
  assume "3 \<le> n"
  then obtain k where "n = 3 + k" by (metis le_Suc_ex)
  then have "replicate n NL = NL3 @ replicate k NL"
    by (simp add: NL3_def numeral_3_eq_3)
  then show ?thesis by simp
qed

lemmas normalizer_eval =
  ustr_def NL_def is_space_def strip_def match_blank_lines_def match_boilerplate_def
  SKIP_TO_CONTENT_def BIZ_EVDE_YOKUZ_def SAMPLE_MARKDOWN_def SAMPLE_CLEANED_def

lemma clean_markdown_sample: "clean_markdown SAMPLE_MARKDOWN = SAMPLE_CLEANED"
  by (simp add: clean_markdown_def normalizer_eval)

lemma SAMPLE_CLEANED_ends: "SAMPLE_CLEANED \<noteq> []" "hd SAMPLE_CLEANED = 97" "last SAMPLE_CLEANED = 102"
  by (simp_all add: SAMPLE_CLEANED_def ustr_def)

text \<open>
  C4. For every markdown text, the text that \<open>_clean_markdown\<close> returns has no run of
  three or more newline characters as a substring, and it is empty or both starts and ends
  with a character that is not whitespace.
\<close>

theorem clean_markdown_invariant:
  "(\<forall>n\<ge>3. \<not> sublist (replicate n NL) (clean_markdown s))
   \<and> (clean_markdown s = [] \<or>
        (\<not> is_space (hd (clean_markdown s)) \<and> \<not> is_space (last (clean_markdown s))))"
proof -
  have "\<not> sublist (replicate n NL) (clean_markdown s)" if "3 \<le> n" for n
  proof
    assume "sublist (replicate n NL) (clean_markdown s)"
    with sublist_NL3_replicate [OF that] have "sublist NL3 (clean_markdown s)"
      using sublist_order.order_trans by blast
    with clean_markdown_no_triple show False ..
  qed
  moreover from clean_markdown_trimmed [of s]
  have "clean_markdown s = [] \<or>
      (\<not> is_space (hd (clean_markdown s)) \<and> \<not> is_space (last (clean_markdown s)))"
    by (simp add: trimmed_def)
  ultimately show ?thesis by blast
qed

theorem clean_markdown_invariant_witness:
  "clean_markdown SAMPLE_MARKDOWN = SAMPLE_CLEANED
   \<and> \<not> sublist (replicate 3 NL) SAMPLE_CLEANED
   \<and> \<not> is_space (hd SAMPLE_CLEANED) \<and> \<not> is_space (last SAMPLE_CLEANED)"
proof -
  from clean_markdown_invariant [of SAMPLE_MARKDOWN]
  have "\<not> sublist (replicate 3 NL) SAMPLE_CLEANED"
    and "SAMPLE_CLEANED = [] \<or>
      (\<not> is_space (hd SAMPLE_CLEANED) \<and> \<not> is_space (last SAMPLE_CLEANED))"
    unfolding clean_markdown_sample by simp_all
  with SAMPLE_CLEANED_ends(1) clean_markdown_sample show ?thesis by blast
qed

lemmas span_eval =
  ustr_def NL_def is_space_def strip_def match_blank_lines_def match_boilerplate_def
  SKIP_TO_CONTENT_def BIZ_EVDE_YOKUZ_def SPAN_MARKDOWN_def

lemma clean_markdown_span: "clean_markdown SPAN_MARKDOWN = ustr ''Biz Evde Yokuz tarif''"
  by (simp add: clean_markdown_def span_eval)

lemma normalize_spec_span: "normalize_spec SPAN_MARKDOWN = ustr ''tarif''"
  by (simp add: normalize_spec_def span_eval)

text \<open>
  C7, as the specification states it: collapse, then strip the leading boilerplate span up
  through the anchor phrase, then trim. On a text that starts with the span, the program
  keeps the anchor phrase where the stated steps remove it.
\<close>

theorem spec_order_counterexample:
  "clean_markdown SPAN_MARKDOWN = ustr ''Biz Evde Yokuz tarif''
   \<and> normalize_spec SPAN_MARKDOWN = ustr ''tarif''
   \<and> clean_markdown SPAN_MARKDOWN \<noteq> normalize_spec SPAN_MARKDOWN"
  by (simp add: clean_markdown_span normalize_spec_span) (simp add: ustr_def)

text \<open>
  C7, amended. For every markdown text, \<open>_clean_markdown\<close> applies three steps in the
  order collapse, trim, boilerplate: every maximal run of three or more newlines becomes
  two newlines; outer whitespace is trimmed; every span from an opening phrase through the
  first anchor phrase behind it is replaced by the anchor phrase, so the anchor phrase is
  kept, and a text without such a span is unchanged. The substitution before the trim
  gives the same text.
\<close>

theorem clean_markdown_steps:
  "clean_markdown s = sub_boilerplate (strip (collapse_runs s))
   \<and> clean_markdown s = strip (sub_boilerplate (collapse_runs s))
   \<and> (\<forall>pre mid rest.
         \<not> sublist SKIP_TO_CONTENT pre \<and> \<not> sublist BIZ_EVDE_YOKUZ mid \<longrightarrow>
         sub_boilerplate (pre @ SKIP_TO_CONTENT @ mid @ BIZ_EVDE_YOKUZ @ rest)
           = pre @ BIZ_EVDE_YOKUZ @ sub_boilerplate rest)
   \<and> (\<forall>t. (\<forall>u v. t = u @ SKIP_TO_CONTENT @ v \<longrightarrow> \<not> sublist BIZ_EVDE_YOKUZ v) \<longrightarrow>
         sub_boilerplate t = t)"
proof -
  have 1: "clean_markdown s = sub_boilerplate (strip (collapse_runs s))"
    by (simp add: clean_markdown_def sub_blank_lines_runs)
  then have 2: "clean_markdown s = strip (sub_boilerplate (collapse_runs s))"
    by (simp add: sub_boilerplate_strip)
  from 1 2 sub_boilerplate_span sub_boilerplate_no_span show ?thesis by blast
qed

theorem clean_markdown_steps_witness:
  "clean_markdown SAMPLE_MARKDOWN = SAMPLE_CLEANED
   \<and> strip (sub_boilerplate (collapse_runs SAMPLE_MARKDOWN)) = SAMPLE_CLEANED
   \<and> \<not> sublist SKIP_TO_CONTENT (ustr ''a '')
   \<and> \<not> sublist BIZ_EVDE_YOKUZ (ustr '' menu '')
   \<and> sub_boilerplate (ustr ''a '' @ SKIP_TO_CONTENT @ ustr '' menu '' @ BIZ_EVDE_YOKUZ @ ustr '' tarif'')
       = ustr ''a '' @ BIZ_EVDE_YOKUZ @ ustr '' tarif''
   \<and> sub_boilerplate (ustr ''tarif'') = ustr ''tarif''"
proof -
  note th = clean_markdown_steps [of SAMPLE_MARKDOWN]
  have a: "\<not> sublist SKIP_TO_CONTENT (ustr ''a '')"
    by (simp add: SKIP_TO_CONTENT_def ustr_def sublist_Cons_right)
  have b: "\<not> sublist BIZ_EVDE_YOKUZ (ustr '' menu '')"
    by (simp add: BIZ_EVDE_YOKUZ_def ustr_def sublist_Cons_right)
  have c: "\<forall>u v. ustr ''tarif'' = u @ SKIP_TO_CONTENT @ v \<longrightarrow> \<not> sublist BIZ_EVDE_YOKUZ v"
  proof (intro allI impI)
    fix u v assume "ustr ''tarif'' = u @ SKIP_TO_CONTENT @ v"
    then have "length (ustr ''tarif'') = length (u @ SKIP_TO_CONTENT @ v)" by simp
    then have False by (simp add: ustr_def SKIP_facts(1))
    then show "\<not> sublist BIZ_EVDE_YOKUZ v" ..
  qed
  have d: "\<forall>u v. ustr '' tarif'' = u @ SKIP_TO_CONTENT @ v \<longrightarrow> \<not> sublist BIZ_EVDE_YOKUZ v"
  proof (intro allI impI)
    fix u v assume "ustr '' tarif'' = u @ SKIP_TO_CONTENT @ v"
    then have "length (ustr '' tarif'') = length (u @ SKIP_TO_CONTENT @ v)" by simp
    then have False by (simp add: ustr_def SKIP_facts(1))
    then show "\<not> sublist BIZ_EVDE_YOKUZ v" ..
  qed
  from th have e: "strip (sub_boilerplate (collapse_runs SAMPLE_MARKDOWN)) = SAMPLE_CLEANED"
    unfolding clean_markdown_sample by simp
  from th c have f: "sub_boilerplate (ustr ''tarif'') = ustr ''tarif''" by blast
  from th d have g: "sub_boilerplate (ustr '' tarif'') = ustr '' tarif''" by blast
  from th a b have "sub_boilerplate (ustr ''a '' @ SKIP_TO_CONTENT @ ustr '' menu '' @ BIZ_EVDE_YOKUZ @ ustr '' tarif'')
       = ustr ''a '' @ BIZ_EVDE_YOKUZ @ sub_boilerplate (ustr '' tarif'')" by blast
  with g have h: "sub_boilerplate (ustr ''a '' @ SKIP_TO_CONTENT @ ustr '' menu '' @ BIZ_EVDE_YOKUZ @ ustr '' tarif'')
       = ustr ''a '' @ BIZ_EVDE_YOKUZ @ ustr '' tarif''" by simp
  from clean_markdown_sample a b e f h show ?thesis by blast
qed

text \<open>
  C9. For every text, cleaning the cleaned text again changes nothing:
  \<open>_clean_markdown(_clean_markdown(x)) = _clean_markdown(x)\<close>.
\<close>

theorem clean_markdown_idempotent:
  "clean_markdown (clean_markdown s) = clean_markdown s"
proof -
  let ?y = "clean_markdown s"
  have 1: "sub_blank_lines ?y = ?y"
    using clean_markdown_no_triple by (rule sub_blank_lines_id)
  have 2: "strip ?y = ?y"
    using clean_markdown_trimmed by (rule strip_trimmed)
  have "clean_markdown ?y = sub_boilerplate ?y"
    by (simp add: clean_markdown_def [of ?y] 1 2)
  also have "\<dots> = ?y"
    by (simp add: clean_markdown_def sub_boilerplate_idem)
  finally show ?thesis .
qed

theorem clean_markdown_idempotent_witness:
  "clean_markdown SAMPLE_CLEANED = SAMPLE_CLEANED"
  using clean_markdown_idempotent [of SAMPLE_MARKDOWN]
  unfolding clean_markdown_sample by simp


section \<open>The pipeline: fetch, prompt, reply, report\<close>

lemmas fence_eval = ustr_def is_space_def FENCE_OPEN_def FENCE_CLOSE_def parse_candidate_def

lemma candidate_FENCED_PROSE: "parse_candidate FENCED_PROSE = ustr ''not json''"
  by (simp add: FENCED_PROSE_def fence_eval)

lemma candidate_FENCED_JSON: \<open>parse_candidate FENCED_JSON = ustr ''{"a":1}''\<close>
  by (simp add: FENCED_JSON_def fence_eval)

lemma candidate_prose: "parse_candidate (ustr ''no json here'') = ustr ''no json here''"
  by (simp add: fence_eval)

lemma length_TRUNCATION_NOTICE: "length TRUNCATION_NOTICE = 42"
  by (simp add: TRUNCATION_NOTICE_def ustr_def)

text \<open>
  C10. For every url, \<open>scrape_with_requests\<close> returns a text and raises nothing: when
  \<open>requests.get\<close> raises, and when \<open>raise_for_status\<close> raises for a status from 400
  to 599, and for whatever else the body of the \<open>try\<close> raises, the result is the empty
  text; a response with a 2xx status gives its body.
\<close>

theorem scrape_with_requests_total:
  "(\<forall>e. requests_get w target (request_headers self) (request_proxies self) (timeout self)
          = GetRaises e \<longrightarrow> scrape_with_requests w self target = [])
   \<and> (\<forall>status body.
          requests_get w target (request_headers self) (request_proxies self) (timeout self)
            = Response status body \<longrightarrow>
          (400 \<le> status \<and> status < 600 \<longrightarrow> scrape_with_requests w self target = []) \<and>
          (200 \<le> status \<and> status < 300 \<longrightarrow> scrape_with_requests w self target = body))
   \<and> (\<forall>e. scrape_try w self target = Inl e \<longrightarrow> scrape_with_requests w self target = [])"
  by (simp add: scrape_with_requests_def scrape_try_def)

theorem scrape_with_requests_total_witness:
  "scrape_with_requests (sample_world PAGE_DOWN []) sample_scraper ROMA_YEMEK_URL = []
   \<and> scrape_with_requests (sample_world (Response 404 (ustr ''not found'')) []) sample_scraper
        ROMA_YEMEK_URL = []
   \<and> scrape_with_requests (sample_world (Response 200 (ustr ''<p>Roma</p>'')) []) sample_scraper
        ROMA_YEMEK_URL = ustr ''<p>Roma</p>''"
proof -
  have 1: "requests_get (sample_world PAGE_DOWN []) ROMA_YEMEK_URL (request_headers sample_scraper)
      (request_proxies sample_scraper) (timeout sample_scraper) = GetRaises (ustr ''connection refused'')"
    by (simp add: sample_world_def PAGE_DOWN_def)
  have 2: "requests_get (sample_world (Response 404 (ustr ''not found'')) []) ROMA_YEMEK_URL
      (request_headers sample_scraper) (request_proxies sample_scraper) (timeout sample_scraper)
      = Response 404 (ustr ''not found'')"
    by (simp add: sample_world_def)
  have 3: "requests_get (sample_world (Response 200 (ustr ''<p>Roma</p>'')) []) ROMA_YEMEK_URL
      (request_headers sample_scraper) (request_proxies sample_scraper) (timeout sample_scraper)
      = Response 200 (ustr ''<p>Roma</p>'')"
    by (simp add: sample_world_def)
  from scrape_with_requests_total [of "sample_world PAGE_DOWN []" ROMA_YEMEK_URL sample_scraper] 1
  have a: "scrape_with_requests (sample_world PAGE_DOWN []) sample_scraper ROMA_YEMEK_URL = []"
    by blast
  from scrape_with_requests_total
    [of "sample_world (Response 404 (ustr ''not found'')) []" ROMA_YEMEK_URL sample_scraper] 2
  have b: "scrape_with_requests (sample_world (Response 404 (ustr ''not found'')) [])
      sample_scraper ROMA_YEMEK_URL = []"
    by simp
  from scrape_with_requests_total
    [of "sample_world (Response 200 (ustr ''<p>Roma</p>'')) []" ROMA_YEMEK_URL sample_scraper] 3
  have c: "scrape_with_requests (sample_world (Response 200 (ustr ''<p>Roma</p>'')) [])
      sample_scraper ROMA_YEMEK_URL = ustr ''<p>Roma</p>''"
    by simp
  from a b c show ?thesis by blast
qed

text \<open>
  C1, as the specification states it: on an empty fetch the result carries
  \<open>Failed{"fetch returned no content"}\<close>, which the program writes as the dictionary of
  \<open>error_result\<close>. The program returns the initial record instead, whose
  \<open>openai_result\<close> is the empty dictionary.
\<close>

theorem empty_fetch_counterexample:
  "fst (scrape_and_process_roma_yemek (sample_world PAGE_DOWN []) sample_scraper ROMA_YEMEK_URL)
     = Inr \<lparr>url = ROMA_YEMEK_URL, title = TITLE, processed = False, openai_result = PDict []\<rparr>
   \<and> fst (scrape_and_process_roma_yemek (sample_world PAGE_DOWN []) sample_scraper ROMA_YEMEK_URL)
     \<noteq> Inr \<lparr>url = ROMA_YEMEK_URL, title = TITLE, processed = False,
            openai_result = error_result (ustr ''fetch returned no content'')\<rparr>"
  by (simp add: scrape_and_process_roma_yemek_def scrape_with_requests_def scrape_try_def
      sample_world_def PAGE_DOWN_def error_result_def)

text \<open>
  C1, amended. For every url for which the fetch step returns the empty text,
  \<open>scrape_and_process_roma_yemek\<close> returns the initial record: \<open>processed\<close> false
  and the empty dictionary as \<open>openai_result\<close>, with no failure message; the only call
  that left the process is the HTTP request, so no completion call was issued.
\<close>

theorem empty_fetch_short_circuit:
  assumes "scrape_with_requests w self target = []"
  shows "scrape_and_process_roma_yemek w self target
           = (Inr \<lparr>url = target, title = TITLE, processed = False, openai_result = PDict []\<rparr>,
              [HttpGet target])
         \<and> chat_calls (snd (scrape_and_process_roma_yemek w self target)) = 0"
  using assms by (simp add: scrape_and_process_roma_yemek_def chat_calls_def)

theorem empty_fetch_short_circuit_witness:
  "scrape_with_requests (sample_world PAGE_DOWN []) sample_scraper ROMA_YEMEK_URL = []
   \<and> scrape_and_process_roma_yemek (sample_world PAGE_DOWN []) sample_scraper ROMA_YEMEK_URL
       = (Inr \<lparr>url = ROMA_YEMEK_URL, title = TITLE, processed = False, openai_result = PDict []\<rparr>,
          [HttpGet ROMA_YEMEK_URL])
   \<and> chat_calls (snd (scrape_and_process_roma_yemek (sample_world PAGE_DOWN []) sample_scraper
        ROMA_YEMEK_URL)) = 0"
proof -
  have h: "scrape_with_requests (sample_world PAGE_DOWN []) sample_scraper ROMA_YEMEK_URL = []"
    by (simp add: scrape_with_requests_def scrape_try_def sample_world_def PAGE_DOWN_def)
  from h empty_fetch_short_circuit [OF h] show ?thesis by blast
qed

text \<open>
  C3. For every document text longer than 15000 characters, the document embedded in the
  prompt is its first 15000 characters followed by the truncation notice, of length 15000
  plus the length of the notice; a text of at most 15000 characters is embedded
  unchanged.
\<close>

theorem truncation_exact:
  "(15000 < length d \<longrightarrow>
      truncate_content d = take 15000 d @ TRUNCATION_NOTICE \<and>
      length (take 15000 d) = 15000 \<and>
      length (truncate_content d) = 15000 + length TRUNCATION_NOTICE)
   \<and> (length d \<le> 15000 \<longrightarrow> truncate_content d = d)
   \<and> user_prompt d = PROMPT_TEMPLATE @ truncate_content d"
  by (simp add: truncate_content_def user_prompt_def)

theorem truncation_exact_witness:
  "15000 < length (replicate 15001 (97::nat))
   \<and> truncate_content (replicate 15001 97) = replicate 15000 97 @ TRUNCATION_NOTICE
   \<and> length (truncate_content (replicate 15001 97)) = 15042
   \<and> length (ustr ''# Roma'') \<le> 15000
   \<and> truncate_content (ustr ''# Roma'') = ustr ''# Roma''"
proof -
  have l: "15000 < length (replicate 15001 (97::nat))" by simp
  have s: "length (ustr ''# Roma'') \<le> 15000" by (simp add: ustr_def)
  from truncation_exact [of "replicate 15001 97"] l
  have 1: "truncate_content (replicate 15001 97) = take 15000 (replicate 15001 97) @ TRUNCATION_NOTICE"
    and 2: "length (truncate_content (replicate 15001 97)) = 15000 + length TRUNCATION_NOTICE"
    by blast+
  from truncation_exact [of "ustr ''# Roma''"] s
  have 3: "truncate_content (ustr ''# Roma'') = ustr ''# Roma''" by blast
  from l s 1 2 3 show ?thesis by (simp add: length_TRUNCATION_NOTICE)
qed

text \<open>
  C8, as the specification states it: the prompt is at most 15000 plus the length of the
  instruction template long. A document of 15001 characters gives a longer prompt, as the
  truncation notice comes on top of the 15000 characters kept.
\<close>

theorem prompt_bound_counterexample:
  "\<not> length (user_prompt (replicate 15001 97)) \<le> 15000 + length PROMPT_TEMPLATE"
  by (simp add: user_prompt_def truncate_content_def length_TRUNCATION_NOTICE)

text \<open>
  C8, amended. For every document text, the prompt sent to the completion service is the
  instruction template followed by the embedded document, and its length is at most 15000
  plus the length of the truncation notice plus the length of the instruction template.
\<close>

theorem prompt_bound:
  "snd (process_with_openai w d) = [ChatCompletion (user_prompt d)]
   \<and> length (user_prompt d) \<le> 15000 + length TRUNCATION_NOTICE + length PROMPT_TEMPLATE"
  by (simp add: process_with_openai_def Let_def user_prompt_def truncate_content_def)

theorem prompt_bound_witness:
  "length (user_prompt (replicate 15001 97)) \<le> 15042 + length PROMPT_TEMPLATE"
  using prompt_bound [of "sample_world PAGE_OK []" "replicate 15001 97"]
  by (simp add: length_TRUNCATION_NOTICE)

text \<open>
  C2, as the specification states it: when the candidate is no JSON, the text kept is the
  whole reply. For a reply with a fenced block whose content is no JSON, the program keeps
  the content of the block, as \<open>result_text\<close> was assigned the group before the
  decoder ran.
\<close>

theorem text_fallback_counterexample:
  "sample_loads (parse_candidate FENCED_PROSE) = JSONDecodeError
   \<and> parse_reply sample_loads FENCED_PROSE = text_result (ustr ''not json'')
   \<and> parse_reply sample_loads FENCED_PROSE \<noteq> text_result FENCED_PROSE"
proof -
  have 1: "sample_loads (ustr ''not json'') = JSONDecodeError"
    by (simp add: sample_loads_def ustr_def)
  have 2: "ustr ''not json'' \<noteq> FENCED_PROSE" by (simp add: FENCED_PROSE_def ustr_def)
  from 1 2 show ?thesis
    by (simp add: parse_reply_def candidate_FENCED_PROSE text_result_def)
qed

text \<open>
  C2, amended. For every reply whose parse candidate raises \<open>JSONDecodeError\<close>, the
  result is the text dictionary with \<open>error\<close> false, \<open>format\<close> "text" and the parse
  candidate as \<open>text_response\<close>: the content of the fenced block when there is one, the
  whole reply when there is none.
\<close>

theorem text_fallback:
  assumes "chat_create w SYSTEM_MESSAGE (user_prompt d) = Reply t"
    and "json_loads w (parse_candidate t) = JSONDecodeError"
  shows "fst (process_with_openai w d) = text_result (parse_candidate t)
         \<and> py_item (fst (process_with_openai w d)) (ustr ''error'') = Inr (PBool False)
         \<and> (json_match t = None \<longrightarrow> fst (process_with_openai w d) = text_result t)"
proof -
  from assms have r: "fst (process_with_openai w d) = text_result (parse_candidate t)"
    by (simp add: process_with_openai_def Let_def parse_reply_def)
  have e: "py_item (text_result (parse_candidate t)) (ustr ''error'') = Inr (PBool False)"
    by (simp add: text_result_def)
  have "json_match t = None \<longrightarrow> parse_candidate t = t"
    by (simp add: parse_candidate_def)
  with r e show ?thesis by simp
qed

theorem text_fallback_witness:
  "fst (process_with_openai (sample_world PAGE_OK FENCED_PROSE) (ustr ''# Roma''))
     = text_result (ustr ''not json'')
   \<and> fst (process_with_openai (sample_world PAGE_OK (ustr ''no json here'')) (ustr ''# Roma''))
     = text_result (ustr ''no json here'')"
proof -
  let ?w1 = "sample_world PAGE_OK FENCED_PROSE"
  let ?w2 = "sample_world PAGE_OK (ustr ''no json here'')"
  have a1: "chat_create ?w1 SYSTEM_MESSAGE (user_prompt (ustr ''# Roma'')) = Reply FENCED_PROSE"
    by (simp add: sample_world_def)
  have b1: "json_loads ?w1 (parse_candidate FENCED_PROSE) = JSONDecodeError"
    by (simp add: sample_world_def candidate_FENCED_PROSE sample_loads_def ustr_def)
  have a2: "chat_create ?w2 SYSTEM_MESSAGE (user_prompt (ustr ''# Roma'')) = Reply (ustr ''no json here'')"
    by (simp add: sample_world_def)
  have b2: "json_loads ?w2 (parse_candidate (ustr ''no json here'')) = JSONDecodeError"
    by (simp add: sample_world_def candidate_prose sample_loads_def) (simp add: ustr_def)
  have n: "json_match (ustr ''no json here'') = None" by (simp add: fence_eval)
  from text_fallback [OF a1 b1] text_fallback [OF a2 b2] n show ?thesis
    by (simp add: candidate_FENCED_PROSE candidate_prose)
qed

text \<open>
  C5, as the specification states it: a candidate that parses gives a structured value
  with the schema's fields, defaults for the missing ones and no unknown field. For the
  reply with the object \<open>{"a": 1}\<close> in a fenced block the program returns that object:
  the unknown field is kept, and neither field of the schema is added.
\<close>

theorem parsed_reply_counterexample:
  "fst (process_with_openai (sample_world PAGE_OK FENCED_JSON) (ustr ''# Roma''))
     = PDict [(ustr ''a'', PInt 1)]
   \<and> py_in (ustr ''a'') (fst (process_with_openai (sample_world PAGE_OK FENCED_JSON) (ustr ''# Roma'')))
     = Inr True
   \<and> py_in (ustr ''roma_mutfagi_ozellikleri'')
        (fst (process_with_openai (sample_world PAGE_OK FENCED_JSON) (ustr ''# Roma''))) = Inr False
   \<and> py_in (ustr ''yemekler'')
        (fst (process_with_openai (sample_world PAGE_OK FENCED_JSON) (ustr ''# Roma''))) = Inr False"
proof -
  have "fst (process_with_openai (sample_world PAGE_OK FENCED_JSON) (ustr ''# Roma''))
     = PDict [(ustr ''a'', PInt 1)]"
    by (simp add: process_with_openai_def Let_def sample_world_def parse_reply_def
        candidate_FENCED_JSON sample_loads_def)
  then show ?thesis by (simp add: ustr_def)
qed

text \<open>
  C5, amended. For every reply whose parse candidate parses as JSON,
  \<open>process_with_openai\<close> returns the parsed value as the decoder gave it: nothing is
  defaulted and nothing is dropped.
\<close>

theorem parsed_reply_returned:
  assumes "chat_create w SYSTEM_MESSAGE (user_prompt d) = Reply t"
    and "json_loads w (parse_candidate t) = Parsed v"
  shows "fst (process_with_openai w d) = v"
  using assms by (simp add: process_with_openai_def Let_def parse_reply_def)

theorem parsed_reply_returned_witness:
  "fst (process_with_openai (sample_world PAGE_OK FENCED_JSON) (ustr ''# Roma''))
     = PDict [(ustr ''a'', PInt 1)]"
proof -
  let ?w = "sample_world PAGE_OK FENCED_JSON"
  have a: "chat_create ?w SYSTEM_MESSAGE (user_prompt (ustr ''# Roma'')) = Reply FENCED_JSON"
    by (simp add: sample_world_def)
  have b: "json_loads ?w (parse_candidate FENCED_JSON) = Parsed (PDict [(ustr ''a'', PInt 1)])"
    by (simp add: sample_world_def candidate_FENCED_JSON sample_loads_def)
  from parsed_reply_returned [OF a b] show ?thesis .
qed

text \<open>
  C6. A reply that is no JSON is kept as a text result, with \<open>error\<close> set to false.
  \<open>main\<close> tests whether the key \<open>error\<close> is present, not its value, so the run with
  the reply "no json here" prints the failure banner and nothing else, and the reply text
  is not printed.
\<close>

theorem prose_reply_reported_as_failure:
  "fst (main (sample_world PAGE_OK (ustr ''no json here''))) = ([FailureBanner], None)
   \<and> fst (scrape_and_process_roma_yemek (sample_world PAGE_OK (ustr ''no json here''))
            sample_scraper ROMA_YEMEK_URL)
     = Inr \<lparr>url = ROMA_YEMEK_URL, title = TITLE, processed = True,
            openai_result = text_result (ustr ''no json here'')\<rparr>"
proof -
  let ?w = "sample_world PAGE_OK (ustr ''no json here'')"
  have h: "scrape_with_requests ?w sample_scraper ROMA_YEMEK_URL
      = ustr ''<article><h1>Roma</h1><p>Carbonara</p></article>''"
    by (simp add: scrape_with_requests_def scrape_try_def sample_world_def PAGE_OK_def)
  have ne: "ustr ''<article><h1>Roma</h1><p>Carbonara</p></article>'' \<noteq> []"
    by (simp add: ustr_def)
  have m: "\<exists>md. html_to_markdown ?w (ustr ''<article><h1>Roma</h1><p>Carbonara</p></article>'') = Inr md"
    by (simp add: html_to_markdown_def sample_world_def)
  then obtain md where md: "html_to_markdown ?w (ustr ''<article><h1>Roma</h1><p>Carbonara</p></article>'') = Inr md"
    by blast
  have p: "fst (process_with_openai ?w md) = text_result (ustr ''no json here'')"
    by (simp add: process_with_openai_def Let_def sample_world_def parse_reply_def
        candidate_prose sample_loads_def) (simp add: ustr_def)
  have r: "fst (scrape_and_process_roma_yemek ?w sample_scraper ROMA_YEMEK_URL)
     = Inr \<lparr>url = ROMA_YEMEK_URL, title = TITLE, processed = True,
            openai_result = text_result (ustr ''no json here'')\<rparr>"
    using h ne md p
    by (cases "process_with_openai ?w md")
      (simp add: scrape_and_process_roma_yemek_def Let_def)
  have rep: "report \<lparr>url = ROMA_YEMEK_URL, title = TITLE, processed = True,
            openai_result = text_result (ustr ''no json here'')\<rparr> = ([FailureBanner], None)"
    by (simp add: report_def report_failure_def text_result_def) (simp add: ustr_def)
  have wr: "write_json ?w = (\<lambda>res. None)" by (simp add: sample_world_def)
  from r rep wr have "fst (main ?w) = ([FailureBanner], None)"
    by (auto simp: main_def Let_def sample_scraper_def split: prod.splits sum.splits)
  with r show ?thesis by blast
qed


end
